theory Spec2Isabelle
  imports Complex_Main "HOL-Library.Multiset" "HOL-Library.Product_Lexorder"
begin

section \<open>Floats and numpy\<close>

text \<open>
  The decoder works on numpy arrays of 64-bit floats. A float is a finite value (the
  real number it denotes; the sign of zero is not kept, every zero that the decoder
  divides by comes from non-negative inputs and is \<open>+0\<close>), or one of \<open>inf\<close>, \<open>-inf\<close>,
  \<open>nan\<close>, with the IEEE 754 rules for them.

  What numpy does beyond that is a parameter of the model, never assumed to be exact:
  \<^item> \<open>rnd\<close>: the float that an exact result of \<open>+\<close>, \<open>-\<close>, \<open>*\<close>, \<open>/\<close> on finite floats is
    rounded to (an infinity on overflow);
  \<^item> \<open>lg\<close>: \<open>np.log\<close> of a positive finite float;
  \<^item> \<open>vsum\<close>: \<open>np.sum\<close> of an array, whose order of additions is numpy's own;
  \<^item> \<open>asort\<close>: \<open>argsort\<close> with numpy's default sort, which is not stable;
  \<^item> \<open>nonzero_0d\<close>: whether \<open>np.where\<close> accepts a zero-dimensional condition (older
    versions of numpy do, with a deprecation warning; newer ones raise \<open>ValueError\<close>).
\<close>

datatype error = ValueError | IndexError | NameError

datatype fl = Fin real | PInf | MInf | NaN

record numpy =
  rnd :: "real \<Rightarrow> fl"
  lg :: "real \<Rightarrow> fl"
  vsum :: "fl list \<Rightarrow> fl"
  asort :: "fl list \<Rightarrow> nat list"
  nonzero_0d :: bool

fun is_finite :: "fl \<Rightarrow> bool" where
  "is_finite (Fin _) = True"
| "is_finite _ = False"

fun fl_add :: "(real \<Rightarrow> fl) \<Rightarrow> fl \<Rightarrow> fl \<Rightarrow> fl" where
  "fl_add r (Fin a) (Fin b) = r (a + b)"
| "fl_add r NaN _ = NaN"
| "fl_add r _ NaN = NaN"
| "fl_add r PInf MInf = NaN"
| "fl_add r MInf PInf = NaN"
| "fl_add r PInf _ = PInf"
| "fl_add r _ PInf = PInf"
| "fl_add r MInf _ = MInf"
| "fl_add r _ MInf = MInf"

fun fl_neg :: "fl \<Rightarrow> fl" where
  "fl_neg (Fin a) = Fin (- a)"
| "fl_neg PInf = MInf"
| "fl_neg MInf = PInf"
| "fl_neg NaN = NaN"

definition fl_sub :: "(real \<Rightarrow> fl) \<Rightarrow> fl \<Rightarrow> fl \<Rightarrow> fl" where
  "fl_sub r a b = fl_add r a (fl_neg b)"

fun is_neg :: "fl \<Rightarrow> bool" where
  "is_neg (Fin a) = (a < 0)"
| "is_neg MInf = True"
| "is_neg _ = False"

fun fl_mul :: "(real \<Rightarrow> fl) \<Rightarrow> fl \<Rightarrow> fl \<Rightarrow> fl" where
  "fl_mul r (Fin a) (Fin b) = r (a * b)"
| "fl_mul r NaN _ = NaN"
| "fl_mul r _ NaN = NaN"
| "fl_mul r x y =
     (if x = Fin 0 \<or> y = Fin 0 then NaN
      else if is_neg x = is_neg y then PInf else MInf)"

text \<open>Division as numpy does it: \<open>x / 0\<close> is \<open>inf\<close>, \<open>-inf\<close> or \<open>nan\<close>, with a warning
  and no exception.\<close>

fun fl_div :: "(real \<Rightarrow> fl) \<Rightarrow> fl \<Rightarrow> fl \<Rightarrow> fl" where
  "fl_div r (Fin a) (Fin b) =
     (if b \<noteq> 0 then r (a / b)
      else if 0 < a then PInf else if a < 0 then MInf else NaN)"
| "fl_div r NaN _ = NaN"
| "fl_div r _ NaN = NaN"
| "fl_div r (Fin a) _ = Fin 0"
| "fl_div r x (Fin b) = (if is_neg x = (b < 0) then PInf else MInf)"
| "fl_div r _ _ = NaN"

fun fl_abs :: "fl \<Rightarrow> fl" where
  "fl_abs (Fin a) = Fin \<bar>a\<bar>"
| "fl_abs PInf = PInf"
| "fl_abs MInf = PInf"
| "fl_abs NaN = NaN"

text \<open>\<open>np.log\<close>: \<open>log 0 = -inf\<close>, the logarithm of a negative number is \<open>nan\<close>
  (numpy warns and goes on).\<close>

fun fl_log :: "(real \<Rightarrow> fl) \<Rightarrow> fl \<Rightarrow> fl" where
  "fl_log g (Fin a) = (if 0 < a then g a else if a = 0 then MInf else NaN)"
| "fl_log g PInf = PInf"
| "fl_log g MInf = NaN"
| "fl_log g NaN = NaN"

text \<open>The comparisons \<open><\<close> and \<open><=\<close> of floats: every comparison with \<open>nan\<close> is false.\<close>

fun fl_lt :: "fl \<Rightarrow> fl \<Rightarrow> bool" where
  "fl_lt NaN _ = False"
| "fl_lt _ NaN = False"
| "fl_lt (Fin a) (Fin b) = (a < b)"
| "fl_lt MInf MInf = False"
| "fl_lt MInf _ = True"
| "fl_lt _ MInf = False"
| "fl_lt PInf _ = False"
| "fl_lt _ PInf = True"

definition fl_le :: "fl \<Rightarrow> fl \<Rightarrow> bool" where
  "fl_le a b = (a \<noteq> NaN \<and> b \<noteq> NaN \<and> \<not> fl_lt b a)"

text \<open>\<open>np.maximum\<close>: a \<open>nan\<close> operand gives \<open>nan\<close>.\<close>

definition fl_maximum :: "fl \<Rightarrow> fl \<Rightarrow> fl" where
  "fl_maximum a b = (if a = NaN \<or> b = NaN then NaN else if fl_lt a b then b else a)"

text \<open>The order in which \<open>argsort\<close> places floats: ascending, \<open>nan\<close> last.\<close>

fun fl_key :: "fl \<Rightarrow> nat \<times> real" where
  "fl_key MInf = (0, 0)"
| "fl_key (Fin a) = (1, a)"
| "fl_key PInf = (2, 0)"
| "fl_key NaN = (3, 0)"

text \<open>
  Elementwise arithmetic of two one-dimensional arrays follows numpy's broadcasting:
  equal lengths combine position by position, an array of length 1 is stretched to the
  other's length, and any other pair of lengths raises \<open>ValueError\<close>.
\<close>

definition broadcast2 :: "('a \<Rightarrow> 'b \<Rightarrow> 'c) \<Rightarrow> 'a list \<Rightarrow> 'b list \<Rightarrow> error + 'c list" where
  "broadcast2 f xs ys =
     (if length xs = length ys then Inr (map2 f xs ys)
      else if length xs = 1 then Inr (map (f (hd xs)) ys)
      else if length ys = 1 then Inr (map (\<lambda>x. f x (hd ys)) xs)
      else Inl ValueError)"

text \<open>\<open>np.setxor1d\<close>: the sorted values that are in exactly one of the two arrays.\<close>

definition setxor1d :: "nat list \<Rightarrow> nat list \<Rightarrow> nat list" where
  "setxor1d a b = sort (remdups (filter (\<lambda>x. x \<notin> set b) a) @ remdups (filter (\<lambda>x. x \<notin> set a) b))"

text \<open>\<open>np.max\<close> of a non-empty index array.\<close>

definition np_max :: "nat list \<Rightarrow> nat" where
  "np_max v = fold max (tl v) (hd v)"

section \<open>The priority queue\<close>

text \<open>
  \<open>queue.PriorityQueue\<close> keeps its entries in a list ordered as a binary heap and uses
  \<open>heapq.heappush\<close> and \<open>heapq.heappop\<close>. The entries are tuples \<open>(l, num, v)\<close>. Python
  compares tuples at the first position where they differ: the costs when they are
  unequal (a \<open>nan\<close> is unequal to everything), the counters otherwise. The counters of
  two entries are never equal, so the index arrays are never compared. With \<open>nan\<close>
  costs the comparison is not an order and the entry that is popped depends on the
  layout of the heap, which is why the heap is modelled as \<open>heapq\<close> implements it.
\<close>

type_synonym entry = "fl \<times> nat \<times> nat list"

fun tuple_lt :: "entry \<Rightarrow> entry \<Rightarrow> bool" where
  "tuple_lt (l1, n1, v1) (l2, n2, v2) =
     (if l1 = l2 \<and> l1 \<noteq> NaN then n1 < n2 else fl_lt l1 l2)"

text \<open>\<open>heapq._siftdown(heap, startpos, pos)\<close>, with \<open>newitem = heap[pos]\<close> taken before
  the loop.\<close>

function siftdown_loop :: "entry list \<Rightarrow> nat \<Rightarrow> nat \<Rightarrow> entry \<Rightarrow> entry list" where
  "siftdown_loop heap startpos pos newitem =
     (if startpos < pos then
        let parentpos = (pos - 1) div 2; parent = heap ! parentpos
        in if tuple_lt newitem parent
           then siftdown_loop (heap[pos := parent]) startpos parentpos newitem
           else heap[pos := newitem]
      else heap[pos := newitem])"
  by pat_completeness auto
termination
  by (relation "measure (\<lambda>(heap, startpos, pos, newitem). pos)") auto

declare siftdown_loop.simps [simp del]

definition siftdown :: "entry list \<Rightarrow> nat \<Rightarrow> nat \<Rightarrow> entry list" where
  "siftdown heap startpos pos = siftdown_loop heap startpos pos (heap ! pos)"

text \<open>The loop of \<open>heapq._siftup(heap, pos)\<close>: the smaller child is moved up until a
  leaf is reached; the result is the heap and the position of the hole.\<close>

function siftup_loop :: "entry list \<Rightarrow> nat \<Rightarrow> nat \<Rightarrow> entry list \<times> nat" where
  "siftup_loop heap pos endpos =
     (let childpos = 2 * pos + 1
      in if childpos < endpos then
           let rightpos = childpos + 1;
               c = (if rightpos < endpos \<and> \<not> tuple_lt (heap ! childpos) (heap ! rightpos)
                    then rightpos else childpos)
           in siftup_loop (heap[pos := heap ! c]) c endpos
         else (heap, pos))"
  by pat_completeness auto
termination
  by (relation "measure (\<lambda>(heap, pos, endpos). endpos - pos)") (auto simp: Let_def)

declare siftup_loop.simps [simp del]

definition siftup :: "entry list \<Rightarrow> nat \<Rightarrow> entry list" where
  "siftup heap pos =
     (let newitem = heap ! pos;
          hp = siftup_loop heap pos (length heap)
      in siftdown ((fst hp)[snd hp := newitem]) pos (snd hp))"

definition heappush :: "entry list \<Rightarrow> entry \<Rightarrow> entry list" where
  "heappush heap item = siftdown (heap @ [item]) 0 (length heap)"

text \<open>\<open>heapq.heappop\<close> of a non-empty heap: the entry returned and the heap left.\<close>

definition heappop :: "entry list \<Rightarrow> entry \<times> entry list" where
  "heappop heap =
     (let lastelt = last heap; heap' = butlast heap
      in if heap' \<noteq> [] then (heap' ! 0, siftup (heap'[0 := lastelt]) 0)
         else (lastelt, []))"

text \<open>The heap operations only move entries around.\<close>

lemma mset_hole_move:
  assumes "i < length xs" "j < length xs" "i \<noteq> j"
  shows "mset (xs[i := xs ! j, j := y]) = mset (xs[i := y])"
  using assms by (simp add: mset_update nth_list_update)

lemma siftdown_loop_mset:
  "pos < length heap \<Longrightarrow>
   mset (siftdown_loop heap startpos pos newitem) = mset (heap[pos := newitem])"
proof (induction heap startpos pos newitem rule: siftdown_loop.induct)
  case (1 heap startpos pos newitem)
  show ?case
  proof (cases "startpos < pos \<and> tuple_lt newitem (heap ! ((pos - 1) div 2))")
    case True
    let ?pp = "(pos - 1) div 2"
    have pp: "?pp < pos" using True by auto
    have "mset (siftdown_loop (heap[pos := heap ! ?pp]) startpos ?pp newitem)
          = mset (heap[pos := heap ! ?pp, ?pp := newitem])"
      using "1.IH" [OF _ refl refl] True pp "1.prems" by simp
    also have "\<dots> = mset (heap[pos := newitem])"
      using pp "1.prems" by (intro mset_hole_move) auto
    finally show ?thesis
      using True by (subst siftdown_loop.simps) (simp add: Let_def)
  next
    case False
    then show ?thesis by (subst siftdown_loop.simps) (auto simp: Let_def)
  qed
qed

lemma siftdown_mset: "pos < length heap \<Longrightarrow> mset (siftdown heap startpos pos) = mset heap"
  by (simp add: siftdown_def siftdown_loop_mset)

lemma siftup_loop_hole:
  "pos < length heap \<Longrightarrow> endpos \<le> length heap \<Longrightarrow>
   snd (siftup_loop heap pos endpos) < length heap \<and>
   length (fst (siftup_loop heap pos endpos)) = length heap \<and>
   mset ((fst (siftup_loop heap pos endpos))[snd (siftup_loop heap pos endpos) := y])
     = mset (heap[pos := y])"
proof (induction heap pos endpos rule: siftup_loop.induct)
  case (1 heap pos endpos)
  let ?cp = "2 * pos + 1"
  show ?case
  proof (cases "?cp < endpos")
    case True
    define c where "c = (if ?cp + 1 < endpos \<and> \<not> tuple_lt (heap ! ?cp) (heap ! (?cp + 1))
                         then ?cp + 1 else ?cp)"
    have c: "c < endpos" "pos < c" using True by (auto simp: c_def)
    have step: "siftup_loop heap pos endpos = siftup_loop (heap[pos := heap ! c]) c endpos"
      using True by (subst siftup_loop.simps) (simp add: Let_def c_def)
    have IH: "snd (siftup_loop (heap[pos := heap ! c]) c endpos) < length (heap[pos := heap ! c]) \<and>
       length (fst (siftup_loop (heap[pos := heap ! c]) c endpos)) = length (heap[pos := heap ! c]) \<and>
       mset ((fst (siftup_loop (heap[pos := heap ! c]) c endpos))
               [snd (siftup_loop (heap[pos := heap ! c]) c endpos) := y])
         = mset (heap[pos := heap ! c, c := y])"
      using "1.IH" [OF refl True refl c_def] c "1.prems" by simp
    have "mset (heap[pos := heap ! c, c := y]) = mset (heap[pos := y])"
      using c "1.prems" by (intro mset_hole_move) auto
    then show ?thesis unfolding step using IH by simp
  next
    case False
    then show ?thesis using "1.prems" by (subst (1 2 3 4) siftup_loop.simps) (simp add: Let_def)
  qed
qed

lemma siftup_mset: "pos < length heap \<Longrightarrow> mset (siftup heap pos) = mset heap"
  using siftup_loop_hole [of pos heap "length heap" "heap ! pos"]
  by (simp add: siftup_def Let_def siftdown_mset)

lemma heappush_mset: "mset (heappush heap item) = add_mset item (mset heap)"
  by (simp add: heappush_def siftdown_mset)

lemma heappop_mset:
  assumes "heap \<noteq> []"
  shows "mset heap = add_mset (fst (heappop heap)) (mset (snd (heappop heap)))"
proof (cases "butlast heap = []")
  case True
  then have "heap = [last heap]" using assms by (metis append_butlast_last_id append_Nil)
  then obtain x where "heap = [x]" by blast
  then show ?thesis by (simp add: heappop_def Let_def)
next
  case False
  let ?h = "butlast heap"
  have heap: "heap = ?h @ [last heap]" using assms by simp
  have pos: "0 < length ?h" using False by (cases "butlast heap") auto
  have "mset (siftup (?h[0 := last heap]) 0) = mset (?h[0 := last heap])"
    using pos by (simp add: siftup_mset)
  also have "\<dots> = add_mset (last heap) (mset ?h - {#?h ! 0#})"
    using pos by (simp add: mset_update)
  finally have r: "mset (snd (heappop heap)) = add_mset (last heap) (mset ?h - {#?h ! 0#})"
    using False by (simp add: heappop_def Let_def)
  have f: "fst (heappop heap) = ?h ! 0" using False by (simp add: heappop_def Let_def)
  have "?h ! 0 \<in># mset ?h" using pos by simp
  then have "add_mset (?h ! 0) (add_mset (last heap) (mset ?h - {#?h ! 0#})) = add_mset (last heap) (mset ?h)"
    by simp
  moreover have "mset heap = add_mset (last heap) (mset ?h)" by (subst heap) simp
  ultimately show ?thesis unfolding r f by simp
qed

section \<open>The search loop of \<open>enumerate_samples\<close>\<close>

definition weight_of :: "nat \<Rightarrow> entry \<Rightarrow> nat" where
  "weight_of P e = 3 * 2 ^ (P - np_max (snd (snd e))) - 1"

lemma weight_of_pos: "0 < weight_of P e"
proof -
  have "(1::nat) \<le> 2 ^ (P - np_max (snd (snd e)))" by simp
  then show ?thesis unfolding weight_of_def by linarith
qed

lemma np_max_ge: "x \<in> set v \<Longrightarrow> x \<le> np_max v"
proof -
  have fold_ge: "\<And>a. a \<le> fold max xs a" for xs :: "nat list"
    by (induction xs) (auto intro: order_trans [OF max.cobounded2])
  have fold_mem: "\<And>a. x \<in> set xs \<Longrightarrow> x \<le> fold max xs a" for xs :: "nat list"
  proof (induction xs)
    case Nil then show ?case by simp
  next
    case (Cons y ys)
    show ?case
    proof (cases "x = y")
      case True
      have "x \<le> max y a" using True by simp
      also have "\<dots> \<le> fold max ys (max y a)" by (rule fold_ge)
      finally show ?thesis by simp
    next
      case False
      then show ?thesis using Cons by auto
    qed
  qed
  assume "x \<in> set v"
  then show ?thesis
    by (cases v) (auto simp: np_max_def fold_ge fold_mem)
qed

lemma np_max_Max: "v \<noteq> [] \<Longrightarrow> np_max v = Max (set v)"
proof (cases v)
  case Nil
  assume "v \<noteq> []"
  with Nil show ?thesis by simp
next
  case (Cons a list)
  have "fold max list a = Max (set (a # list))" by (rule Max.set_eq_fold [symmetric])
  then show ?thesis by (simp add: np_max_def Cons)
qed

lemma set_setxor1d: "set (setxor1d a b) = (set a - set b) \<union> (set b - set a)"
  by (auto simp: setxor1d_def)

lemma np_max_append_succ: "np_max (v @ [np_max v + 1]) = np_max v + 1"
proof -
  have "Max (set (v @ [np_max v + 1])) = np_max v + 1"
    by (rule Max_eqI) (auto dest: np_max_ge)
  then show ?thesis by (simp add: np_max_Max)
qed

lemma np_max_swap_succ: "np_max (setxor1d (v @ [np_max v + 1]) [np_max v]) = np_max v + 1"
proof -
  let ?s = "setxor1d (v @ [np_max v + 1]) [np_max v]"
  have mem: "np_max v + 1 \<in> set ?s" by (simp add: set_setxor1d)
  then have ne: "?s \<noteq> []" by auto
  have "Max (set ?s) = np_max v + 1"
  proof (rule Max_eqI)
    fix y assume "y \<in> set ?s"
    then show "y \<le> np_max v + 1"
      by (auto simp: set_setxor1d dest: np_max_ge)
  qed (use mem in auto)
  then show ?thesis using ne by (simp add: np_max_Max)
qed

text \<open>
  The \<open>while not q.empty()\<close> loop, drained: the list of the popped pairs \<open>(l, v)\<close> in the
  order in which they are popped. \<open>r\<close> rounds the float additions, \<open>Ls\<close> is
  \<open>L_sorted\<close>, \<open>num\<close> the tie-break counter, \<open>q\<close> the heap of the queue. Each pop
  pushes two successors when \<open>i + 1 < len(L_sorted)\<close>: \<open>v\<close> extended by \<open>i + 1\<close> with cost
  \<open>l + L_sorted[i + 1]\<close>, and \<open>v\<close> with \<open>i\<close> replaced by \<open>i + 1\<close> with cost
  \<open>l + L_sorted[i + 1] - L_sorted[i]\<close>.
\<close>

function drain :: "(real \<Rightarrow> fl) \<Rightarrow> fl list \<Rightarrow> nat \<Rightarrow> entry list \<Rightarrow> (fl \<times> nat list) list" where
  "drain r Ls num q =
     (if q = [] then []
      else
        let e = fst (heappop q); q' = snd (heappop q);
            l = fst e; v = snd (snd e); i = np_max v
        in (l, v) #
           (if i + 1 < length Ls
            then drain r Ls (num + 2)
                   (heappush
                      (heappush q' (fl_add r l (Ls ! (i + 1)), num, v @ [i + 1]))
                      (fl_sub r (fl_add r l (Ls ! (i + 1))) (Ls ! i), num + 1,
                       setxor1d (v @ [i + 1]) [i]))
            else drain r Ls num q'))"
  by pat_completeness auto

lemma weight_of_children:
  assumes "np_max v + 1 < P"
  shows "weight_of P (a, n, v @ [np_max v + 1]) + weight_of P (b, m, setxor1d (v @ [np_max v + 1]) [np_max v])
         < weight_of P (c, k, v)"
proof -
  obtain d where d: "P - np_max v = Suc d" using assms by (cases "P - np_max v") auto
  then have d': "P - (np_max v + 1) = d" by simp
  have one: "(1::nat) \<le> 2 ^ d" by simp
  have e1: "np_max (v @ [np_max v + 1]) = np_max v + 1" by (rule np_max_append_succ)
  have e2: "np_max (setxor1d (v @ [np_max v + 1]) [np_max v]) = np_max v + 1"
    by (rule np_max_swap_succ)
  have w1: "weight_of P (a, n, v @ [np_max v + 1]) = 3 * 2 ^ d - 1"
    unfolding weight_of_def snd_conv e1 d' ..
  have w2: "weight_of P (b, m, setxor1d (v @ [np_max v + 1]) [np_max v]) = 3 * 2 ^ d - 1"
    unfolding weight_of_def snd_conv e2 d' ..
  have w3: "weight_of P (c, k, v) = 3 * (2 * 2 ^ d) - 1"
    unfolding weight_of_def snd_conv d by simp
  show ?thesis unfolding w1 w2 w3 using one by linarith
qed

termination drain
proof (relation "measure (\<lambda>(r, Ls, num, q). sum_mset (image_mset (weight_of (length Ls)) (mset q)))",
    goal_cases)
  case 1
  show ?case by simp
next
  case (2 r Ls num q e q' l v i)
  have mq: "mset q = add_mset e (mset q')" using 2 heappop_mset [of q] by simp
  have ch: "weight_of (length Ls) (fl_add r l (Ls ! (i + 1)), num, v @ [i + 1])
        + weight_of (length Ls) (fl_sub r (fl_add r l (Ls ! (i + 1))) (Ls ! i), num + 1, setxor1d (v @ [i + 1]) [i])
        < weight_of (length Ls) e"
    using weight_of_children [of v "length Ls" _ num _ "num + 1" "fst e" "fst (snd e)"] 2
    by simp
  show ?case using ch by (simp add: heappush_mset mq)
next
  case (3 r Ls num q e q' l v i)
  have mq: "mset q = add_mset e (mset q')" using 3 heappop_mset [of q] by simp
  show ?case using weight_of_pos [of "length Ls" e] by (simp add: mq)
qed

declare drain.simps [simp del]

section \<open>\<open>enumerate_samples\<close> and \<open>get_log_prob\<close>\<close>

text \<open>
  \<open>p = w\<^sub>a * acoustic + w\<^sub>l * language\<close> and
  \<open>not_p = w\<^sub>a * (1 - acoustic) + w\<^sub>l * (1 - language)\<close>, one pitch at a time: every
  product, difference and sum is rounded. The weight list \<open>[w\<^sub>a, w\<^sub>l]\<close> is a pair; the
  entries of the arrays and the weights are finite floats.
\<close>

definition p_of :: "numpy \<Rightarrow> real \<times> real \<Rightarrow> real \<Rightarrow> real \<Rightarrow> fl" where
  "p_of np weight a l =
     fl_add (rnd np) (fl_mul (rnd np) (Fin (fst weight)) (Fin a))
                     (fl_mul (rnd np) (Fin (snd weight)) (Fin l))"

definition not_p_of :: "numpy \<Rightarrow> real \<times> real \<Rightarrow> real \<Rightarrow> real \<Rightarrow> fl" where
  "not_p_of np weight a l =
     fl_add (rnd np)
       (fl_mul (rnd np) (Fin (fst weight)) (fl_sub (rnd np) (Fin 1) (Fin a)))
       (fl_mul (rnd np) (Fin (snd weight)) (fl_sub (rnd np) (Fin 1) (Fin l)))"

text \<open>The penalty for flipping a pitch: \<open>np.abs(np.log(p / not_p))\<close>.\<close>

definition flip_penalty :: "numpy \<Rightarrow> fl \<Rightarrow> fl \<Rightarrow> fl" where
  "flip_penalty np p not_p = fl_abs (fl_log (lg np) (fl_div (rnd np) p not_p))"

text \<open>
  The generator, drained: the list of the pairs it yields, and the exception that ends
  it, if one does (\<open>None\<close>: it ends by running off the end of the loop).

  \<^item> Incompatible lengths raise \<open>ValueError\<close> in the first statement, before any yield.
  \<^item> \<open>np.squeeze\<close> leaves a vector of length other than 1 as it is. A vector of length
    1 becomes a zero-dimensional array. Then either \<open>np.where\<close> raises \<open>ValueError\<close>
    before the first yield, or (older numpy) the greedy pair is yielded, \<open>L\<close> is a
    scalar and \<open>L[R]\<close> raises \<open>IndexError\<close>.
  \<^item> Otherwise the greedy pair \<open>(l_0, v_0)\<close> is yielded first.
  \<^item> For an empty vector, \<open>L_sorted[0]\<close> then raises \<open>IndexError\<close>.
  \<^item> Otherwise the queue starts with \<open>(L_sorted[0], 0, [0])\<close> and \<open>num = 1\<close>; each
    popped \<open>(l, v)\<close> is yielded as \<open>(l_0 - l, setxor1d(v_0, R[v]))\<close>.
\<close>

definition enumerate_samples ::
  "numpy \<Rightarrow> real list \<Rightarrow> real list \<Rightarrow> real \<times> real \<Rightarrow> (fl \<times> nat list) list \<times> error option" where
  "enumerate_samples np acoustic language weight =
     (case (broadcast2 (p_of np weight) acoustic language,
            broadcast2 (not_p_of np weight) acoustic language) of
        (Inr p, Inr not_p) \<Rightarrow>
          if length p = 1 \<and> \<not> nonzero_0d np then ([], Some ValueError)
          else
            let v_0 = filter (\<lambda>i. fl_lt (not_p ! i) (p ! i)) [0..<length p];
                l_0 = vsum np (map (\<lambda>i. fl_log (lg np) (fl_maximum (p ! i) (not_p ! i)))
                                 [0..<length p])
            in if length p = 1 then ([(l_0, v_0)], Some IndexError)
               else
                 let L = map (\<lambda>i. flip_penalty np (p ! i) (not_p ! i)) [0..<length p];
                     R = asort np L;
                     L_sorted = map (\<lambda>j. L ! j) R
                 in if L_sorted = [] then ([(l_0, v_0)], Some IndexError)
                    else ((l_0, v_0) #
                          map (\<lambda>(l, v). (fl_sub (rnd np) l_0 l, setxor1d v_0 (map (\<lambda>j. R ! j) v)))
                            (drain (rnd np) L_sorted 1 (heappush [] (L_sorted ! 0, 0, [0]))),
                          None)
      | (Inl e, _) \<Rightarrow> ([], Some e)
      | (_, Inl e) \<Rightarrow> ([], Some e))"

text \<open>
  \<open>get_log_prob(sample, acoustic, language, weight)\<close>:
  \<open>np.sum(np.where(sample == 1, np.log(p), np.log(not_p)))\<close>. The sample is a float
  array of zeros and ones; it is broadcast against \<open>p\<close> and \<open>not_p\<close>.
\<close>

definition get_log_prob ::
  "numpy \<Rightarrow> real list \<Rightarrow> real list \<Rightarrow> real list \<Rightarrow> real \<times> real \<Rightarrow> error + fl" where
  "get_log_prob np sample acoustic language weight =
     (case (broadcast2 (p_of np weight) acoustic language,
            broadcast2 (not_p_of np weight) acoustic language) of
        (Inr p, Inr not_p) \<Rightarrow>
          (case broadcast2 (\<lambda>s (a, b). if s = 1 then fl_log (lg np) a else fl_log (lg np) b)
                  sample (zip p not_p) of
             Inr xs \<Rightarrow> Inr (vsum np xs)
           | Inl e \<Rightarrow> Inl e)
      | (Inl e, _) \<Rightarrow> Inl e
      | (_, Inl e) \<Rightarrow> Inl e)"

text \<open>\<open>binary_sample = np.zeros(n); binary_sample[sample] = 1\<close>: \<open>IndexError\<close> when an
  index is out of range.\<close>

definition binary_of :: "nat \<Rightarrow> nat list \<Rightarrow> error + real list" where
  "binary_of n sample =
     (if \<forall>i \<in> set sample. i < n
      then Inr (map (\<lambda>i. if i \<in> set sample then 1 else 0) [0..<n])
      else Inl IndexError)"

section \<open>What the theorems need of numpy\<close>

text \<open>
  The theorems below hold for every numpy that satisfies the properties they name; all
  of them hold of IEEE 754 arithmetic and of numpy's sum and sort:
  \<^item> \<open>rounds_exactly\<close>: 0 and 1 are floats, so a result that is exactly 0 or 1 is not
    rounded, and \<open>log 1 = 0\<close>;
  \<^item> \<open>sums_ok\<close>: a sum of zeros is zero, a sum of zeros and \<open>-inf\<close> is \<open>-inf\<close>, and a sum
    with an operand that is not finite is not finite, whatever the order of additions;
  \<^item> \<open>sorts\<close>: \<open>argsort\<close> returns a permutation of the indices that puts the values in
    ascending order, \<open>nan\<close> last (the order of equal values is not fixed).

  \<open>exact_np\<close> is the numpy in which no operation rounds and the sort is stable (as
  numpy's is for arrays of at most 16 elements). It satisfies the three properties, and
  it agrees with float arithmetic on inputs where no float operation rounds.
\<close>

definition exact_sum :: "fl list \<Rightarrow> fl" where
  "exact_sum xs = foldl (fl_add Fin) (Fin 0) xs"

definition stable_argsort :: "fl list \<Rightarrow> nat list" where
  "stable_argsort L = sort_key (\<lambda>i. fl_key (L ! i)) [0..<length L]"

definition exact_np :: numpy where
  "exact_np = \<lparr>rnd = Fin, lg = (\<lambda>x. Fin (ln x)), vsum = exact_sum, asort = stable_argsort,
               nonzero_0d = True\<rparr>"

definition rounds_exactly :: "numpy \<Rightarrow> bool" where
  "rounds_exactly np = (rnd np 0 = Fin 0 \<and> rnd np 1 = Fin 1 \<and> lg np 1 = Fin 0)"

definition sums_ok :: "numpy \<Rightarrow> bool" where
  "sums_ok np =
     ((\<forall>xs. set xs \<subseteq> {Fin 0} \<longrightarrow> vsum np xs = Fin 0) \<and>
      (\<forall>xs. MInf \<in> set xs \<and> set xs \<subseteq> {Fin 0, MInf} \<longrightarrow> vsum np xs = MInf) \<and>
      (\<forall>xs. (\<exists>x \<in> set xs. \<not> is_finite x) \<longrightarrow> \<not> is_finite (vsum np xs)))"

definition sorts :: "numpy \<Rightarrow> bool" where
  "sorts np =
     (\<forall>L. mset (asort np L) = mset [0..<length L] \<and>
          sorted (map (\<lambda>j. fl_key (L ! j)) (asort np L)))"

text \<open>The log-probabilities of a yielded sequence never increase: each one is \<open><=\<close>
  (as floats compare) every one yielded before it.\<close>

definition non_increasing :: "(fl \<times> nat list) list \<Rightarrow> bool" where
  "non_increasing ys = sorted_wrt (\<lambda>x y. fl_le (fst y) (fst x)) ys"

text \<open>The score that \<open>decode\<close> gives a sample: the sample is written into an array of
  zeros and passed to \<open>get_log_prob\<close>. (\<open>decode\<close> uses arrays of 88 pitches; here the
  array has the length of the acoustic vector.)\<close>

definition score_of ::
  "numpy \<Rightarrow> real list \<Rightarrow> real list \<Rightarrow> real \<times> real \<Rightarrow> nat list \<Rightarrow> error + fl" where
  "score_of np acoustic language weight sample =
     (case binary_of (length acoustic) sample of
        Inr b \<Rightarrow> get_log_prob np b acoustic language weight
      | Inl e \<Rightarrow> Inl e)"

lemmas heap_eval = heappush_def heappop_def siftdown_def siftup_def siftdown_loop.simps
  siftup_loop.simps Let_def

lemma degenerate_pair:
  assumes e: "rounds_exactly np"
  shows "p_of np (1, 0) 0 0 = Fin 0" "not_p_of np (1, 0) 0 0 = Fin 1"
  using e by (simp_all add: p_of_def not_p_of_def rounds_exactly_def fl_sub_def)

lemma two_perm:
  assumes "mset R = mset [0, Suc 0]"
  shows "R = [0, Suc 0] \<or> R = [Suc 0, 0]"
proof -
  have len: "length R = length [0::nat, Suc 0]" using assms by (rule mset_eq_length)
  obtain a b where R: "R = [a, b]"
  proof (cases R)
    case Nil
    with len show ?thesis by simp
  next
    case (Cons a R')
    with len obtain b where "R' = [b]" by (cases R') auto
    with Cons that show ?thesis by simp
  qed
  have "set R = set [0::nat, Suc 0]" using assms by (rule mset_eq_setD)
  then have "{a, b} = {0, Suc 0}" unfolding R by simp
  then show ?thesis unfolding R by (auto simp: doubleton_eq_iff)
qed

lemma drain_two_inf:
  "drain r [PInf, PInf] 1 (heappush [] (PInf, 0, [0]))
   = [(PInf, [0]), (PInf, [0, 1]), (NaN, [1])]"
  by (simp add: drain.simps heap_eval np_max_def setxor1d_def fl_sub_def)

text \<open>With \<open>nan\<close> costs the order of the pops follows the layout of the heap: with three
  infinite penalties the entry pushed fifth (\<open>[1, 2]\<close>) is popped before the one pushed
  fourth (\<open>[0, 2]\<close>).\<close>

lemma drain_three_inf:
  "drain r [PInf, PInf, PInf] 1 (heappush [] (PInf, 0, [0]))
   = [(PInf, [0]), (PInf, [0, 1]), (NaN, [1]), (PInf, [0, 1, 2]), (NaN, [1, 2]), (NaN, [0, 2]),
      (NaN, [2])]"
  by (simp add: drain.simps heap_eval np_max_def setxor1d_def fl_sub_def)

lemma fl_add_nonfinite: "\<not> is_finite x \<Longrightarrow> \<not> is_finite (fl_add r a x)" "\<not> is_finite a \<Longrightarrow> \<not> is_finite (fl_add r a x)"
  by (cases a; cases x; simp)+

lemma foldl_nonfinite_acc: "\<not> is_finite a \<Longrightarrow> \<not> is_finite (foldl (fl_add r) a xs)"
  by (induction xs arbitrary: a) (simp_all add: fl_add_nonfinite)

lemma foldl_nonfinite: "\<exists>x \<in> set xs. \<not> is_finite x \<Longrightarrow> \<not> is_finite (foldl (fl_add r) a xs)"
proof (induction xs arbitrary: a)
  case Nil
  then show ?case by simp
next
  case (Cons y ys)
  show ?case
  proof (cases "is_finite y")
    case True
    then show ?thesis using Cons by simp
  next
    case False
    then show ?thesis by (simp add: foldl_nonfinite_acc fl_add_nonfinite)
  qed
qed

lemma foldl_zero_minf:
  "set xs \<subseteq> {Fin 0, MInf} \<Longrightarrow> a = Fin 0 \<or> a = MInf \<Longrightarrow>
   foldl (fl_add Fin) a xs = (if a = MInf \<or> MInf \<in> set xs then MInf else Fin 0)"
  by (induction xs arbitrary: a) auto

lemma rounds_exactly_exact: "rounds_exactly exact_np"
  by (simp add: rounds_exactly_def exact_np_def)

lemma sums_ok_exact: "sums_ok exact_np"
proof -
  have 1: "vsum exact_np xs = Fin 0" if "set xs \<subseteq> {Fin 0}" for xs
  proof -
    from that have "set xs \<subseteq> {Fin 0, MInf}" "MInf \<notin> set xs" by auto
    then show ?thesis using foldl_zero_minf [of xs "Fin 0"] by (simp add: exact_np_def exact_sum_def)
  qed
  have 2: "vsum exact_np xs = MInf" if "MInf \<in> set xs \<and> set xs \<subseteq> {Fin 0, MInf}" for xs
    using that foldl_zero_minf [of xs "Fin 0"] by (simp add: exact_np_def exact_sum_def)
  have 3: "\<not> is_finite (vsum exact_np xs)" if "\<exists>x \<in> set xs. \<not> is_finite x" for xs
    using foldl_nonfinite [OF that] by (simp add: exact_np_def exact_sum_def)
  show ?thesis unfolding sums_ok_def using 1 2 3 by blast
qed

lemma sorts_exact: "sorts exact_np"
  by (simp add: sorts_def exact_np_def stable_argsort_def)

lemma enumerate_degenerate:
  assumes e: "rounds_exactly np" and s: "sums_ok np" and a: "sorts np"
  shows "\<exists>i j. (i = 0 \<and> j = 1 \<or> i = 1 \<and> j = 0) \<and>
           enumerate_samples np [0, 0] [0, 0] (1, 0)
             = ([(Fin 0, []), (MInf, [i]), (MInf, [0, 1]), (NaN, [j])], None)"
proof -
  let ?L = "[PInf, PInf]"
  have l0: "vsum np [Fin 0, Fin 0] = Fin 0" using s by (simp add: sums_ok_def)
  have lg1: "lg np 1 = Fin 0" and r0: "rnd np 0 = Fin 0" using e by (simp_all add: rounds_exactly_def)
  have "mset (asort np ?L) = mset [0, Suc 0]"
    using a by (simp add: sorts_def upt_rec numeral_2_eq_2)
  then have R: "asort np ?L = [0, Suc 0] \<or> asort np ?L = [Suc 0, 0]" by (rule two_perm)
  have unf: "enumerate_samples np [0, 0] [0, 0] (1, 0)
        = ((Fin 0, []) #
            map (\<lambda>(l, v). (fl_sub (rnd np) (Fin 0) l, setxor1d [] (map (\<lambda>j. asort np ?L ! j) v)))
              (drain (rnd np) (map (\<lambda>j. ?L ! j) (asort np ?L)) 1
                 (heappush [] (map (\<lambda>j. ?L ! j) (asort np ?L) ! 0, 0, [0]))), None)"
    using R
    by (auto simp: enumerate_samples_def broadcast2_def degenerate_pair [OF e] fl_maximum_def
        flip_penalty_def lg1 l0 r0 upt_rec numeral_2_eq_2 Let_def)
  from R show ?thesis
  proof
    assume R0: "asort np ?L = [0, Suc 0]"
    show ?thesis
      unfolding unf R0 by (simp add: drain_two_inf [simplified] fl_sub_def setxor1d_def)
  next
    assume R1: "asort np ?L = [Suc 0, 0]"
    show ?thesis
      unfolding unf R1 by (simp add: drain_two_inf [simplified] fl_sub_def setxor1d_def)
  qed
qed

section \<open>C1: the order of the yielded log-probabilities\<close>

text \<open>
  C1. Claim: for every pair of length-P probability vectors and every normalized weight,
  the log-probabilities yielded by \<open>enumerate_samples\<close> are non-increasing.

  The code breaks this on an input its docstring admits (probabilities between 0.0 and
  1.0 inclusive). With acoustic \<open>[0, 0]\<close> and the acoustic-only weight \<open>[1, 0]\<close> both flip
  penalties are \<open>inf\<close>; the cost of the swap successor,
  \<open>l + L_sorted[i + 1] - L_sorted[i] = inf + inf - inf\<close>, is \<open>nan\<close>; and the
  log-probabilities yielded are \<open>0, -inf, -inf, nan\<close>, the last of which is not \<open><=\<close>
  the ones before it.
\<close>

theorem enumerate_samples_yields_nan:
  assumes "rounds_exactly np" and "sums_ok np" and "sorts np"
  shows "map fst (fst (enumerate_samples np [0, 0] [0, 0] (1, 0))) = [Fin 0, MInf, MInf, NaN] \<and>
         \<not> non_increasing (fst (enumerate_samples np [0, 0] [0, 0] (1, 0)))"
  using enumerate_degenerate [OF assms] by (auto simp: non_increasing_def fl_le_def)

theorem enumerate_samples_yields_nan_witness:
  "rounds_exactly exact_np \<and> sums_ok exact_np \<and> sorts exact_np \<and>
   map fst (fst (enumerate_samples exact_np [0, 0] [0, 0] (1, 0))) = [Fin 0, MInf, MInf, NaN] \<and>
   \<not> non_increasing (fst (enumerate_samples exact_np [0, 0] [0, 0] (1, 0)))"
  using enumerate_samples_yields_nan [OF rounds_exactly_exact sums_ok_exact sorts_exact]
    rounds_exactly_exact sums_ok_exact sorts_exact by blast

section \<open>C4: the enumerator's score and \<open>get_log_prob\<close>\<close>

lemma score_degenerate:
  assumes e: "rounds_exactly np" and s: "sums_ok np"
  shows "score_of np [0, 0] [0, 0] (1, 0) [0] = Inr MInf"
    and "score_of np [0, 0] [0, 0] (1, 0) [1] = Inr MInf"
proof -
  have lg1: "lg np 1 = Fin 0" using e by (simp add: rounds_exactly_def)
  have v: "vsum np [MInf, Fin 0] = MInf" "vsum np [Fin 0, MInf] = MInf"
    using s by (simp_all add: sums_ok_def)
  show "score_of np [0, 0] [0, 0] (1, 0) [0] = Inr MInf"
    by (simp add: score_of_def binary_of_def get_log_prob_def broadcast2_def
        degenerate_pair [OF e] lg1 v upt_rec numeral_2_eq_2)
  show "score_of np [0, 0] [0, 0] (1, 0) [1] = Inr MInf"
    by (simp add: score_of_def binary_of_def get_log_prob_def broadcast2_def
        degenerate_pair [OF e] lg1 v upt_rec numeral_2_eq_2)
qed

text \<open>
  C4. Claim: every log-probability yielded by \<open>enumerate_samples\<close> equals
  \<open>get_log_prob\<close> of the yielded sample.

  The code breaks this on the same input as in C1: the fourth pair yielded for acoustic
  \<open>[0, 0]\<close> and weight \<open>[1, 0]\<close> has log-probability \<open>nan\<close>, while \<open>get_log_prob\<close> of its
  sample is \<open>-inf\<close>.
\<close>

theorem enumerated_score_differs:
  assumes "rounds_exactly np" and "sums_ok np" and "sorts np"
  shows "fst (fst (enumerate_samples np [0, 0] [0, 0] (1, 0)) ! 3) = NaN \<and>
         score_of np [0, 0] [0, 0] (1, 0) (snd (fst (enumerate_samples np [0, 0] [0, 0] (1, 0)) ! 3))
           = Inr MInf"
  using enumerate_degenerate [OF assms] score_degenerate [OF assms(1,2)] by auto

theorem enumerated_score_differs_witness:
  "rounds_exactly exact_np \<and> sums_ok exact_np \<and> sorts exact_np \<and>
   fst (fst (enumerate_samples exact_np [0, 0] [0, 0] (1, 0)) ! 3) = NaN \<and>
   score_of exact_np [0, 0] [0, 0] (1, 0)
     (snd (fst (enumerate_samples exact_np [0, 0] [0, 0] (1, 0)) ! 3)) = Inr MInf"
  using enumerated_score_differs [OF rounds_exactly_exact sums_ok_exact sorts_exact]
    rounds_exactly_exact sums_ok_exact sorts_exact by blast

section \<open>The flip sets visited by the search\<close>

text \<open>
  Which flip sets are popped does not depend on the costs: the entry popped with flip set
  \<open>v\<close> pushes the two successors of \<open>v\<close>, so the flip sets popped from a queue are those
  of the trees below its entries (\<open>tree\<close>). Below \<open>[0]\<close> these are the non-empty
  strictly increasing index lists (\<open>incs\<close>), each once.
\<close>

function tree :: "nat \<Rightarrow> nat list \<Rightarrow> nat list list" where
  "tree P v =
     v # (if np_max v + 1 < P
          then tree P (v @ [np_max v + 1]) @ tree P (setxor1d (v @ [np_max v + 1]) [np_max v])
          else [])"
  by pat_completeness auto
termination
  by (relation "measure (\<lambda>(P, v). P - np_max v)")
     (auto simp: np_max_append_succ np_max_swap_succ simp del: One_nat_def)

declare tree.simps [simp del]

fun incs :: "nat \<Rightarrow> nat \<Rightarrow> nat list list" where
  "incs i 0 = []"
| "incs i (Suc n) = [i] # map ((#) i) (incs (Suc i) n) @ incs (Suc i) n"

lemma drain_mset:
  "mset (map snd (drain r Ls num q)) =
     (\<Sum>e \<in># mset q. mset (tree (length Ls) (snd (snd e))))"
proof (induction r Ls num q rule: drain.induct)
  case (1 r Ls num q)
  show ?case
  proof (cases "q = []")
    case True
    then show ?thesis by (simp add: drain.simps)
  next
    case False
    define e where "e = fst (heappop q)"
    define q' where "q' = snd (heappop q)"
    define l where "l = fst e"
    define v where "v = snd (snd e)"
    define i where "i = np_max v"
    have mq: "mset q = add_mset e (mset q')"
      using heappop_mset [OF False] by (simp add: e_def q'_def)
    show ?thesis
    proof (cases "i + 1 < length Ls")
      case True
      let ?q2 = "heappush (heappush q' (fl_add r l (Ls ! (i + 1)), num, v @ [i + 1]))
                   (fl_sub r (fl_add r l (Ls ! (i + 1))) (Ls ! i), num + 1, setxor1d (v @ [i + 1]) [i])"
      have IH: "mset (map snd (drain r Ls (num + 2) ?q2)) =
                (\<Sum>e \<in># mset ?q2. mset (tree (length Ls) (snd (snd e))))"
        using "1.IH"(1) [OF False e_def q'_def l_def v_def i_def True] .
      have dr: "drain r Ls num q = (l, v) # drain r Ls (num + 2) ?q2"
        using False True
        by (subst drain.simps) (simp add: Let_def e_def q'_def l_def v_def i_def)
      have tr: "mset (tree (length Ls) v) =
            add_mset v (mset (tree (length Ls) (v @ [i + 1])) + mset (tree (length Ls) (setxor1d (v @ [i + 1]) [i])))"
        using True by (subst tree.simps) (simp add: i_def)
      show ?thesis
        unfolding dr mq using IH tr by (simp add: heappush_mset v_def)
    next
      case nt: False
      have IH: "mset (map snd (drain r Ls num q')) = (\<Sum>e \<in># mset q'. mset (tree (length Ls) (snd (snd e))))"
        using "1.IH"(2) [OF False e_def q'_def l_def v_def i_def nt] .
      have dr: "drain r Ls num q = (l, v) # drain r Ls num q'"
        using False nt
        by (subst drain.simps) (simp add: Let_def e_def q'_def l_def v_def i_def)
      have tr: "mset (tree (length Ls) v) = {#v#}"
        using nt by (subst tree.simps) (simp add: i_def)
      show ?thesis
        unfolding dr mq using IH tr by (simp add: v_def)
    qed
  qed
qed

lemma np_max_snoc: "sorted_wrt (<) (u @ [i]) \<Longrightarrow> np_max (u @ [i]) = i"
proof -
  assume s: "sorted_wrt (<) (u @ [i])"
  have "Max (set (u @ [i])) = i"
    by (rule Max_eqI) (use s in \<open>auto simp: sorted_wrt_append less_imp_le\<close>)
  then show ?thesis by (simp add: np_max_Max)
qed

lemma setxor1d_swap:
  assumes "sorted_wrt (<) (u @ [i])"
  shows "setxor1d ((u @ [i]) @ [Suc i]) [i] = u @ [Suc i]"
proof -
  have u: "sorted_wrt (<) u" "\<forall>x \<in> set u. x < i" using assms by (auto simp: sorted_wrt_append)
  have f: "filter (\<lambda>x. x \<noteq> i) u = u" using u by (auto simp: filter_id_conv)
  have ss: "sorted_wrt (<) (u @ [Suc i])" using u by (auto simp: sorted_wrt_append)
  have d: "distinct (u @ [Suc i])" and s: "sorted (u @ [Suc i])"
    using ss strict_sorted_iff [of "u @ [Suc i]"] by blast+
  have "setxor1d ((u @ [i]) @ [Suc i]) [i] = sort (remdups (u @ [Suc i]))"
    using f by (simp add: setxor1d_def)
  also have "\<dots> = u @ [Suc i]"
    using d s by (simp only: distinct_remdups_id sorted_sort_id)
  finally show ?thesis .
qed

lemma tree_incs:
  "sorted_wrt (<) (u @ [i]) \<Longrightarrow> tree (i + Suc n) (u @ [i]) = map ((@) u) (incs i (Suc n))"
proof (induction n arbitrary: u i)
  case 0
  then show ?case by (subst tree.simps) (simp add: np_max_snoc)
next
  case (Suc n)
  have s1: "sorted_wrt (<) ((u @ [i]) @ [Suc i])" using Suc.prems by (auto simp: sorted_wrt_append)
  have s2: "sorted_wrt (<) (u @ [Suc i])" using Suc.prems by (auto simp: sorted_wrt_append)
  have a: "tree (Suc i + Suc n) ((u @ [i]) @ [Suc i]) = map ((@) (u @ [i])) (incs (Suc i) (Suc n))"
    by (rule Suc.IH [OF s1])
  have b: "tree (Suc i + Suc n) (u @ [Suc i]) = map ((@) u) (incs (Suc i) (Suc n))"
    by (rule Suc.IH [OF s2])
  have sw: "setxor1d ((u @ [i]) @ [Suc i]) [i] = u @ [Suc i]" by (rule setxor1d_swap [OF Suc.prems])
  have "tree (i + Suc (Suc n)) (u @ [i]) =
        (u @ [i]) # tree (i + Suc (Suc n)) ((u @ [i]) @ [i + 1]) @ tree (i + Suc (Suc n)) (u @ [i + 1])"
    by (subst tree.simps) (simp add: np_max_snoc [OF Suc.prems] sw del: append_assoc)
  then show ?case using a b by simp
qed

lemma incs_props:
  "w \<in> set (incs i n) \<Longrightarrow> w \<noteq> [] \<and> sorted_wrt (<) w \<and> (\<forall>x \<in> set w. i \<le> x \<and> x < i + n)"
proof (induction n arbitrary: i w)
  case 0
  then show ?case by simp
next
  case (Suc n)
  from Suc.prems consider "w = [i]" | w' where "w = i # w'" "w' \<in> set (incs (Suc i) n)"
    | "w \<in> set (incs (Suc i) n)" by auto
  then show ?case
  proof cases
    case 1
    then show ?thesis by simp
  next
    case 2
    with Suc.IH [of w' "Suc i"] show ?thesis by force
  next
    case 3
    with Suc.IH [of w "Suc i"] show ?thesis by force
  qed
qed



lemma drained_flip_sets:
  assumes P: "length Ls = Suc n"
  shows "mset (map snd (drain r Ls num (heappush [] (c, k, [0])))) = mset (incs 0 (Suc n))"
proof -
  have "tree (0 + Suc n) ([] @ [0]) = map ((@) []) (incs 0 (Suc n))"
    by (rule tree_incs) simp
  moreover have "(@) ([]::nat list) = id" by (rule ext) simp
  ultimately have "tree (Suc n) [0] = incs 0 (Suc n)" by (simp del: incs.simps)
  then show ?thesis using drain_mset [of r Ls num "heappush [] (c, k, [0])"]
    by (simp add: P heappush_mset)
qed








lemma broadcast2_same:
  "length a = length l \<Longrightarrow> broadcast2 f a l = Inr (map2 f a l)"
  by (simp add: broadcast2_def)

lemma broadcast2_length:
  assumes "broadcast2 f a l = Inr p" and "broadcast2 g a l = Inr q"
  shows "length q = length p"
  using assms by (auto simp: broadcast2_def split: if_splits)

lemma enumerate_big:
  assumes bp: "broadcast2 (p_of np w) a l = Inr p"
    and bq: "broadcast2 (not_p_of np w) a l = Inr q"
    and big: "2 \<le> length p" and srt: "sorts np"
  shows "\<exists>gl gv R D. set gv \<subseteq> {0..<length p} \<and> mset R = mset [0..<length p] \<and>
           mset (map snd D) = mset (incs 0 (length p)) \<and>
           enumerate_samples np a l w =
             ((gl, gv) # map (\<lambda>(c, v). (fl_sub (rnd np) gl c, setxor1d gv (map (\<lambda>j. R ! j) v))) D, None)"
proof -
  let ?P = "length p"
  let ?gv = "filter (\<lambda>i. fl_lt (q ! i) (p ! i)) [0..<?P]"
  let ?gl = "vsum np (map (\<lambda>i. fl_log (lg np) (fl_maximum (p ! i) (q ! i))) [0..<?P])"
  let ?L = "map (\<lambda>i. flip_penalty np (p ! i) (q ! i)) [0..<?P]"
  let ?R = "asort np ?L"
  let ?Ls = "map (\<lambda>j. ?L ! j) ?R"
  let ?D = "drain (rnd np) ?Ls 1 (heappush [] (?Ls ! 0, 0, [0]))"
  have R: "mset ?R = mset [0..<?P]" using srt by (simp add: sorts_def)
  have lenR: "length ?R = ?P" using R by (metis mset_eq_length length_upt diff_zero)
  obtain n where n: "?P = Suc n" using big by (cases ?P) auto
  have lenLs: "length ?Ls = Suc n" using lenR n by simp
  have Lne: "?Ls \<noteq> []" using lenLs by auto
  have D: "mset (map snd ?D) = mset (incs 0 ?P)"
    using drained_flip_sets [OF lenLs] n by simp
  have ne1: "?P \<noteq> 1" using big by simp
  have "enumerate_samples np a l w =
        ((?gl, ?gv) # map (\<lambda>(c, v). (fl_sub (rnd np) ?gl c, setxor1d ?gv (map (\<lambda>j. ?R ! j) v))) ?D, None)"
    unfolding enumerate_samples_def bp bq prod.case sum.case Let_def
    using ne1 Lne by simp
  moreover have "set ?gv \<subseteq> {0..<?P}" by auto
  ultimately show ?thesis using R D by blast
qed



section \<open>C2: every assignment is yielded once\<close>




section \<open>C3: the first element is the greedy assignment\<close>



lemmas eval_defs = enumerate_samples_def get_log_prob_def broadcast2_def exact_np_def exact_sum_def
  stable_argsort_def p_of_def not_p_of_def flip_penalty_def fl_sub_def fl_maximum_def
  drain.simps np_max_def setxor1d_def

section \<open>C9: vectors of different lengths\<close>

text \<open>
  C9. Claim: if the acoustic and the language vector differ in length, the call fails
  with a shape-mismatch error, for every pair of different lengths.

  As stated the claim fails when one of the two has length 1: numpy broadcasts it. With
  acoustic \<open>[1, 1]\<close> and language \<open>[1]\<close> the enumerator yields four pairs and
  \<open>get_log_prob\<close> returns a value.
\<close>

theorem broadcast_counterexample:
  "enumerate_samples exact_np [1, 1] [1] (1/2, 1/2)
     = ([(Fin 0, [0, 1]), (MInf, [1]), (MInf, []), (NaN, [0])], None) \<and>
   get_log_prob exact_np [1, 1] [1, 1] [1] (1/2, 1/2) = Inr (Fin 0)"
  by (simp add: eval_defs heap_eval upt_rec numeral_2_eq_2)

text \<open>
  C9, amended: if the acoustic and the language vector differ in length and neither has
  length 1, \<open>enumerate_samples\<close> raises \<open>ValueError\<close> before it yields anything and
  \<open>get_log_prob\<close> raises \<open>ValueError\<close>.
\<close>

theorem shape_mismatch:
  assumes "length acoustic \<noteq> length language" "length acoustic \<noteq> 1" "length language \<noteq> 1"
  shows "enumerate_samples np acoustic language weight = ([], Some ValueError) \<and>
         get_log_prob np sample acoustic language weight = Inl ValueError"
  using assms by (simp add: enumerate_samples_def get_log_prob_def broadcast2_def)

theorem shape_mismatch_witness:
  "length [1, 1, 1 :: real] \<noteq> length [1, 1 :: real] \<and>
   length [1, 1, 1 :: real] \<noteq> 1 \<and> length [1, 1 :: real] \<noteq> 1 \<and>
   enumerate_samples exact_np [1, 1, 1] [1, 1] (1/2, 1/2) = ([], Some ValueError) \<and>
   get_log_prob exact_np [1, 0, 0] [1, 1, 1] [1, 1] (1/2, 1/2) = Inl ValueError"
  using shape_mismatch [of "[1, 1, 1]" "[1, 1]" exact_np "(1/2, 1/2)" "[1, 0, 0]"] by simp

section \<open>C5: no clamping\<close>

text \<open>
  C5. Claim: combined probabilities that are exactly 0 or 1 are clamped before any
  logarithm is taken, so that every log-probability and flip penalty is finite.

  The code does not clamp. With acoustic \<open>[0, 0]\<close> and weight \<open>[1, 0]\<close>, \<open>get_log_prob\<close>
  of the sample \<open>[0, 1]\<close> is \<open>-inf\<close> and the flip penalty of a pitch is \<open>inf\<close>.
\<close>

theorem no_clamp_counterexample:
  "get_log_prob exact_np [0, 1] [0, 0] [0, 0] (1, 0) = Inr MInf \<and>
   flip_penalty exact_np (p_of exact_np (1, 0) 0 0) (not_p_of exact_np (1, 0) 0 0) = PInf"
  by (simp add: eval_defs)

text \<open>
  C5, amended: nothing is clamped before a logarithm. When the combined probability of
  the bit that a sample chooses for some pitch is exactly 0, \<open>get_log_prob\<close> of the sample
  is not finite; and the flip penalty of a pitch with \<open>p = 0 < not_p\<close> or
  \<open>not_p = 0 < p\<close> is \<open>inf\<close>.
\<close>

theorem no_clamping:
  assumes s: "sums_ok np" and e: "rounds_exactly np"
    and ls: "length sample = length acoustic" and len: "length acoustic = length language"
    and i: "i < length acoustic"
    and z: "(if sample ! i = 1 then p_of np weight (acoustic ! i) (language ! i)
             else not_p_of np weight (acoustic ! i) (language ! i)) = Fin 0"
  shows "(\<exists>x. get_log_prob np sample acoustic language weight = Inr x \<and> \<not> is_finite x) \<and>
         (0 < c \<longrightarrow> flip_penalty np (Fin 0) (Fin c) = PInf \<and> flip_penalty np (Fin c) (Fin 0) = PInf)"
proof -
  let ?p = "map2 (p_of np weight) acoustic language"
  let ?q = "map2 (not_p_of np weight) acoustic language"
  let ?f = "\<lambda>s (a, b). if s = 1 then fl_log (lg np) a else fl_log (lg np) b"
  let ?xs = "map2 ?f sample (zip ?p ?q)"
  have lz: "length sample = length (zip ?p ?q)" using ls len by simp
  have g: "get_log_prob np sample acoustic language weight = Inr (vsum np ?xs)"
    unfolding get_log_prob_def broadcast2_same [OF len] prod.case sum.case broadcast2_same [OF lz]
    by simp
  have ilen: "i < length ?xs" using i ls len by simp
  have "?xs ! i = fl_log (lg np) (Fin 0)"
    using i ls len z by (auto split: if_splits)
  then have "?xs ! i = MInf" by simp
  then have "MInf \<in> set ?xs" using ilen by (metis nth_mem)
  then have "\<exists>x \<in> set ?xs. \<not> is_finite x" by (intro bexI [of _ MInf]) auto
  then have nf: "\<not> is_finite (vsum np ?xs)" using s unfolding sums_ok_def by blast
  have r0: "rnd np 0 = Fin 0" using e by (simp add: rounds_exactly_def)
  have pen: "flip_penalty np (Fin 0) (Fin c) = PInf \<and> flip_penalty np (Fin c) (Fin 0) = PInf"
    if "0 < c"
    using that r0 by (simp add: flip_penalty_def)
  show ?thesis using g nf pen by blast
qed

theorem no_clamping_witness:
  "sums_ok exact_np \<and> rounds_exactly exact_np \<and>
   length [0, 1 :: real] = length [0, 0 :: real] \<and> length [0, 0 :: real] = length [0, 0 :: real] \<and>
   (1 :: nat) < length [0, 0 :: real] \<and>
   (if [0, 1 :: real] ! 1 = 1 then p_of exact_np (1, 0) ([0, 0] ! 1) ([0, 0] ! 1)
    else not_p_of exact_np (1, 0) ([0, 0] ! 1) ([0, 0] ! 1)) = Fin 0 \<and>
   (0 :: real) < 1 \<and>
   (\<exists>x. get_log_prob exact_np [0, 1] [0, 0] [0, 0] (1, 0) = Inr x \<and> \<not> is_finite x) \<and>
   flip_penalty exact_np (Fin 0) (Fin 1) = PInf \<and> flip_penalty exact_np (Fin 1) (Fin 0) = PInf"
proof -
  have ls: "length [0, 1 :: real] = length [0, 0 :: real]" by simp
  have len: "length [0, 0 :: real] = length [0, 0 :: real]" by simp
  have i: "(1 :: nat) < length [0, 0 :: real]" by simp
  have z: "(if [0, 1 :: real] ! 1 = 1 then p_of exact_np (1, 0) ([0, 0] ! 1) ([0, 0] ! 1)
    else not_p_of exact_np (1, 0) ([0, 0] ! 1) ([0, 0] ! 1)) = Fin 0"
    by (simp add: p_of_def exact_np_def)
  have c: "(0 :: real) < 1" by simp
  from no_clamping [OF sums_ok_exact rounds_exactly_exact ls len i z, of 1]
    sums_ok_exact rounds_exactly_exact ls len i z c
  show ?thesis by blast
qed

section \<open>The beam and its states\<close>

text \<open>
  Modelled from the spec: the classes \<open>State\<close> and \<open>Beam\<close> (\<open>state.py\<close>, \<open>beam.py\<close>) are
  not among the sources. A state holds the accumulated log-probability, the samples
  accepted so far, the handle of the language model's hidden state and the prior the
  model predicts for the next frame (spec, section 3). A beam is the list of its states,
  in the order in which \<open>for state in beam\<close> visits them.
\<close>

record 'h state =
  log_prob :: fl
  sample_history :: "real list list"
  hidden_state :: 'h
  prior :: "real list"

text \<open>Modelled from the spec: \<open>Beam.add_initial_state\<close> seeds the beam with one state
  with empty history and log-probability 0 (spec 4.3).\<close>

definition initial_state :: "'h \<Rightarrow> real list \<Rightarrow> 'h state" where
  "initial_state h0 p0 = \<lparr>log_prob = Fin 0, sample_history = [], hidden_state = h0, prior = p0\<rparr>"

text \<open>Modelled from the spec: \<open>State.transition\<close> builds the successor: it extends the
  history by the sample, adds \<open>log_prob\<close> to the accumulated log-probability and adopts
  the new handle and prior (spec 4.2). The receiver is not changed.\<close>

definition transition ::
  "numpy \<Rightarrow> 'h state \<Rightarrow> real list \<Rightarrow> fl \<Rightarrow> 'h \<Rightarrow> real list \<Rightarrow> 'h state" where
  "transition np s sample lp h pr =
     \<lparr>log_prob = fl_add (rnd np) (log_prob s) lp,
      sample_history = sample_history s @ [sample],
      hidden_state = h, prior = pr\<rparr>"

text \<open>
  Modelled from the spec: \<open>Beam.cut_to_size(beam_size, hash_length)\<close> (spec 4.3,
  \<open>prune_and_merge\<close>): if a hash length is given, states whose last \<open>hash_length\<close>
  samples agree are merged, the one with the highest log-probability surviving; the
  states are sorted by log-probability, descending; the first \<open>beam_size\<close> are kept.
\<close>

text \<open>Modelled from the spec: the hash key of a state, its last \<open>h\<close> samples (spec,
  section 3).\<close>

definition hash_key :: "nat \<Rightarrow> 'h state \<Rightarrow> real list list" where
  "hash_key h s = drop (length (sample_history s) - h) (sample_history s)"

text \<open>Modelled from the spec: a state joins the merged states; of two states with the
  same hash key only the one with the higher log-probability stays.\<close>

fun merge_into :: "nat \<Rightarrow> 'h state \<Rightarrow> 'h state list \<Rightarrow> 'h state list" where
  "merge_into h s [] = [s]"
| "merge_into h s (t # ts) =
     (if hash_key h t = hash_key h s
      then (if fl_lt (log_prob t) (log_prob s) then s # ts else t # ts)
      else t # merge_into h s ts)"

text \<open>Modelled from the spec: the states of a beam merged by hash key.\<close>

definition merge_hash :: "nat \<Rightarrow> 'h state list \<Rightarrow> 'h state list" where
  "merge_hash h beam = foldl (\<lambda>acc s. merge_into h s acc) [] beam"

text \<open>Modelled from the spec: \<open>Beam.cut_to_size\<close>; \<open>None\<close> is the call without a hash
  length.\<close>

definition cut_to_size :: "nat \<Rightarrow> nat option \<Rightarrow> 'h state list \<Rightarrow> 'h state list" where
  "cut_to_size beam_size hash_length beam =
     take beam_size
       (rev (sort_key (\<lambda>s. fl_key (log_prob s))
               (case hash_length of None \<Rightarrow> beam | Some h \<Rightarrow> merge_hash h beam)))"

section \<open>\<open>decode\<close>\<close>

text \<open>\<open>itertools.islice(gen, n)\<close> over a drained generator: the first \<open>n\<close> items; the
  exception that ends the generator is met only if fewer than \<open>n\<close> items come before it.\<close>

definition islice :: "'a list \<times> error option \<Rightarrow> nat \<Rightarrow> 'a list \<times> error option" where
  "islice gen n = (if n \<le> length (fst gen) then (take n (fst gen), None) else gen)"

text \<open>A \<open>for\<close> loop over the items of a generator: the body runs on each item in turn and
  an exception in the body ends the loop; the generator's own exception is raised after
  the items that came before it.\<close>

fun for_each :: "('a \<Rightarrow> 's \<Rightarrow> error + 's) \<Rightarrow> 'a list \<Rightarrow> 's \<Rightarrow> error + 's" where
  "for_each f [] s = Inr s"
| "for_each f (x # xs) s = (case f x s of Inl e \<Rightarrow> Inl e | Inr s' \<Rightarrow> for_each f xs s')"

definition for_gen :: "('a \<Rightarrow> 's \<Rightarrow> error + 's) \<Rightarrow> 'a list \<times> error option \<Rightarrow> 's \<Rightarrow> error + 's" where
  "for_gen f gen s =
     (case for_each f (fst gen) s of
        Inl e \<Rightarrow> Inl e
      | Inr s' \<Rightarrow> (case snd gen of None \<Rightarrow> Inr s' | Some e \<Rightarrow> Inl e))"

text \<open>
  The truth value of a numpy array, as \<open>bool(x == e)\<close> takes it: an array with more than
  one element has none and raises \<open>ValueError\<close>. \<open>binary_sample in unique_samples\<close>
  compares the sample with each array of the list in turn and takes the truth value of
  each comparison.
\<close>

definition array_truth :: "bool list \<Rightarrow> error + bool" where
  "array_truth bs =
     (if length bs = 1 then Inr (hd bs) else if bs = [] then Inr False else Inl ValueError)"

fun py_in :: "real list \<Rightarrow> real list list \<Rightarrow> error + bool" where
  "py_in x [] = Inr False"
| "py_in x (e # es) =
     (case array_truth (map2 (=) x e) of
        Inl err \<Rightarrow> Inl err
      | Inr True \<Rightarrow> Inr True
      | Inr False \<Rightarrow> py_in x es)"

text \<open>
  The candidates of one frame (lines 63 to 99 of \<open>decode\<close>): the lists \<open>states\<close>,
  \<open>samples\<close> and \<open>log_probs\<close> as one list of triples, and \<open>unique_samples\<close>.
  \<open>sampling_method is "union"\<close> is taken as equality of strings.
\<close>

type_synonym 'h cands = "('h state \<times> real list \<times> fl) list"

definition add_for_states ::
  "numpy \<Rightarrow> real \<times> real \<Rightarrow> real list \<Rightarrow> real list \<Rightarrow> 'h state list \<Rightarrow> 'h cands \<Rightarrow> error + 'h cands" where
  "add_for_states np weight frame binary_sample beam cands =
     for_each (\<lambda>state cs.
         case get_log_prob np binary_sample frame (prior state) weight of
           Inl e \<Rightarrow> Inl e
         | Inr lp \<Rightarrow> Inr (cs @ [(state, binary_sample, lp)]))
       beam cands"

definition shared_pool ::
  "numpy \<Rightarrow> string \<Rightarrow> real \<times> real \<Rightarrow> nat \<Rightarrow> real list \<Rightarrow> 'h state list \<Rightarrow>
   error + 'h cands \<times> real list list" where
  "shared_pool np sampling_method weight branch_factor frame beam =
     (if beam = [] then Inl IndexError
      else
        for_gen (\<lambda>(lp, sample) (cands, unique_samples).
            case binary_of 88 sample of
              Inl e \<Rightarrow> Inl e
            | Inr binary_sample \<Rightarrow>
                (case add_for_states np weight frame binary_sample beam cands of
                   Inl e \<Rightarrow> Inl e
                 | Inr cands' \<Rightarrow>
                     Inr (cands',
                          if sampling_method = ''union'' then unique_samples @ [binary_sample]
                          else unique_samples)))
          (islice (enumerate_samples np frame (prior (beam ! 0)) (1, 0)) branch_factor)
          ([], []))"

definition private_pool ::
  "numpy \<Rightarrow> string \<Rightarrow> real \<times> real \<Rightarrow> nat \<Rightarrow> real list \<Rightarrow> real list list \<Rightarrow>
   'h state \<Rightarrow> 'h cands \<Rightarrow> error + 'h cands" where
  "private_pool np sampling_method weight branch_factor frame unique_samples state cands =
     for_gen (\<lambda>(lp, sample) cs.
         case binary_of 88 sample of
           Inl e \<Rightarrow> Inl e
         | Inr binary_sample \<Rightarrow>
             (case (if sampling_method = ''union'' then py_in binary_sample unique_samples
                    else Inr False) of
                Inl e \<Rightarrow> Inl e
              | Inr True \<Rightarrow> Inr cs
              | Inr False \<Rightarrow>
                  (case get_log_prob np binary_sample frame (prior state) weight of
                     Inl e \<Rightarrow> Inl e
                   | Inr l \<Rightarrow> Inr (cs @ [(state, binary_sample, l)]))))
       (islice (enumerate_samples np frame (prior state)
                  (if sampling_method = ''union'' then (0, 1) else weight)) branch_factor)
       cands"

definition gather ::
  "numpy \<Rightarrow> string \<Rightarrow> real \<times> real \<Rightarrow> nat \<Rightarrow> real list \<Rightarrow> 'h state list \<Rightarrow> error + 'h cands" where
  "gather np sampling_method weight branch_factor frame beam =
     (case (if sampling_method = ''union'' \<or> fst weight = 1
            then shared_pool np sampling_method weight branch_factor frame beam
            else Inr ([], [])) of
        Inl e \<Rightarrow> Inl e
      | Inr (cands, unique_samples) \<Rightarrow>
          if sampling_method = ''union'' \<or> fst weight \<noteq> 1
          then for_each (private_pool np sampling_method weight branch_factor frame unique_samples)
                 beam cands
          else Inr cands)"

text \<open>Line 111 of \<open>decode\<close>: \<open>beam.cut_to_size(beam_size)\<close>, with no hash length.\<close>

definition decode_prune :: "nat \<Rightarrow> 'h state list \<Rightarrow> 'h state list" where
  "decode_prune beam_size new_beam = cut_to_size beam_size None new_beam"

text \<open>
  One frame of \<open>decode\<close>: the candidates are scored in one batch by the language model
  (\<open>model.run_one_step\<close>, external, the parameter \<open>lm\<close>: it returns the new hidden states
  and priors, or fails), the successors are built by \<open>transition\<close> (\<open>zip\<close> stops at the
  shortest list), and the new beam is cut to \<open>beam_size\<close>; \<open>decode\<close> passes no hash
  length.
\<close>

definition decode_frame ::
  "numpy \<Rightarrow> ('h list \<Rightarrow> real list list \<Rightarrow> error + ('h \<times> real list) list) \<Rightarrow>
   nat \<Rightarrow> nat \<Rightarrow> string \<Rightarrow> real \<times> real \<Rightarrow> real list \<Rightarrow> 'h state list \<Rightarrow> error + 'h state list" where
  "decode_frame np lm branch_factor beam_size sampling_method weight frame beam =
     (case gather np sampling_method weight branch_factor frame beam of
        Inl e \<Rightarrow> Inl e
      | Inr cands \<Rightarrow>
          (case lm (map (\<lambda>(s, b, l). hidden_state s) cands) (map (\<lambda>(s, b, l). b) cands) of
             Inl e \<Rightarrow> Inl e
           | Inr scored \<Rightarrow>
               Inr (decode_prune beam_size
                      (map (\<lambda>((h, pr), (s, b, l)). transition np s b l h pr) (zip scored cands)))))"

definition decode_frames ::
  "numpy \<Rightarrow> ('h list \<Rightarrow> real list list \<Rightarrow> error + ('h \<times> real list) list) \<Rightarrow>
   nat \<Rightarrow> nat \<Rightarrow> string \<Rightarrow> real \<times> real \<Rightarrow> real list list \<Rightarrow> 'h state list \<Rightarrow> error + 'h state list" where
  "decode_frames np lm branch_factor beam_size sampling_method weight frames beam =
     for_each (decode_frame np lm branch_factor beam_size sampling_method weight) frames beam"

text \<open>Modelled from the spec: \<open>Beam.get_top_state\<close> is the state with the highest
  log-probability (spec 4.3, \<open>best\<close>), the first state of a beam that has been cut; an
  empty beam has none. \<open>State.get_piano_roll\<close> is the history of the state.\<close>

definition get_top_state :: "'h state list \<Rightarrow> error + 'h state" where
  "get_top_state beam = (if beam = [] then Inl IndexError else Inr (hd beam))"

text \<open>
  \<open>decode\<close>: \<open>frames\<close> are the columns of the acoustic matrix. In union mode the branch
  factor is halved first, \<open>int(branch_factor / 2)\<close> (the branch factor is a count, a
  natural number). The result is the piano roll of the top state of the last beam, as
  the list of its frames; the priors returned with it are not modelled.
\<close>

definition decode ::
  "numpy \<Rightarrow> ('h list \<Rightarrow> real list list \<Rightarrow> error + ('h \<times> real list) list) \<Rightarrow> 'h \<Rightarrow> real list \<Rightarrow>
   real list list \<Rightarrow> nat \<Rightarrow> nat \<Rightarrow> string \<Rightarrow> real \<times> real \<Rightarrow> error + real list list" where
  "decode np lm h0 p0 frames branch_factor beam_size sampling_method weight =
     (let branch_factor' = (if sampling_method = ''union'' then branch_factor div 2 else branch_factor)
      in case decode_frames np lm branch_factor' beam_size sampling_method weight frames
                [initial_state h0 p0] of
           Inl e \<Rightarrow> Inl e
         | Inr beam \<Rightarrow>
             (case get_top_state beam of Inl e \<Rightarrow> Inl e | Inr best \<Rightarrow> Inr (sample_history best)))"

section \<open>Union sampling\<close>

lemma broadcast2_cases:
  "broadcast2 f a l = Inl ValueError \<or> (\<exists>p. broadcast2 f a l = Inr p \<and> (length p = length a \<or> length p = length l))"
  by (auto simp: broadcast2_def)

lemma broadcast2_status:
  "(\<exists>e. broadcast2 f a l = Inl e) \<longleftrightarrow> (\<exists>e. broadcast2 g a l = Inl e)"
  by (auto simp: broadcast2_def)

lemma broadcast2_88:
  assumes "length a = 88" and "broadcast2 f a l = Inr p"
  shows "length p = 88"
  using assms by (auto simp: broadcast2_def split: if_splits)

lemma broadcast2_error: "broadcast2 f a l = Inl e \<Longrightarrow> e = ValueError"
  by (simp add: broadcast2_def split: if_splits)

lemma get_log_prob_error:
  assumes "get_log_prob np b a l w = Inl e"
  shows "e = ValueError"
proof (cases "broadcast2 (p_of np w) a l")
  case (Inl e1)
  then show ?thesis using assms broadcast2_error [OF Inl] by (simp add: get_log_prob_def)
next
  case p: (Inr p)
  show ?thesis
  proof (cases "broadcast2 (not_p_of np w) a l")
    case (Inl e2)
    then show ?thesis using assms p broadcast2_error [OF Inl] by (simp add: get_log_prob_def)
  next
    case q: (Inr q)
    show ?thesis
    proof (cases "broadcast2 (\<lambda>s (a, b). if s = 1 then fl_log (lg np) a else fl_log (lg np) b) b (zip p q)")
      case (Inl e3)
      then show ?thesis using assms p q broadcast2_error [OF Inl] by (simp add: get_log_prob_def)
    next
      case (Inr xs)
      then show ?thesis using assms p q by (simp add: get_log_prob_def)
    qed
  qed
qed

lemma enumerate_88:
  assumes srt: "sorts np" and len: "length frame = 88"
  shows "enumerate_samples np frame pr w = ([], Some ValueError) \<or>
         (\<exists>y ys. enumerate_samples np frame pr w = (y # ys, None) \<and>
                 (\<forall>z \<in> set (y # ys). set (snd z) \<subseteq> {0..<88}))"
proof (cases "broadcast2 (p_of np w) frame pr")
  case (Inl e)
  then have "e = ValueError" by (rule broadcast2_error)
  then show ?thesis using Inl by (simp add: enumerate_samples_def)
next
  case (Inr p)
  then obtain q where q: "broadcast2 (not_p_of np w) frame pr = Inr q"
    by (auto simp: broadcast2_def split: if_splits)
  have lp: "length p = 88" by (rule broadcast2_88 [OF len Inr])
  then have big: "2 \<le> length p" by simp
  obtain gl gv R D where gv: "set gv \<subseteq> {0..<length p}" and R: "mset R = mset [0..<length p]"
    and D: "mset (map snd D) = mset (incs 0 (length p))"
    and e: "enumerate_samples np frame pr w =
             ((gl, gv) # map (\<lambda>(c, v). (fl_sub (rnd np) gl c, setxor1d gv (map (\<lambda>j. R ! j) v))) D, None)"
    using enumerate_big [OF Inr q big srt] by blast
  have setR: "set R = {0..<length p}" using R by (metis mset_eq_setD set_upt)
  have lenR: "length R = length p" using R by (metis mset_eq_length length_upt diff_zero)
  have rng: "set (snd z) \<subseteq> {0..<88}"
    if z: "z \<in> set (map (\<lambda>(c, v). (fl_sub (rnd np) gl c, setxor1d gv (map (\<lambda>j. R ! j) v))) D)" for z
  proof -
    obtain c v where cv: "(c, v) \<in> set D" and zz: "z = (fl_sub (rnd np) gl c, setxor1d gv (map (\<lambda>j. R ! j) v))"
      using z by auto
    have "v \<in> set (map snd D)" using cv by force
    then have "v \<in> set (incs 0 (length p))" using D by (metis mset_eq_setD)
    then have vr: "\<forall>x \<in> set v. x < length p" using incs_props by fastforce
    have "(\<lambda>j. R ! j) ` set v \<subseteq> {0..<length p}"
    proof
      fix i assume "i \<in> (\<lambda>j. R ! j) ` set v"
      then obtain j where j: "j \<in> set v" "i = R ! j" by auto
      then have "j < length R" using vr lenR by auto
      then have "R ! j \<in> set R" by (rule nth_mem)
      then show "i \<in> {0..<length p}" using setR j(2) by simp
    qed
    then show ?thesis unfolding zz using gv lp by (auto simp: set_setxor1d)
  qed
  show ?thesis
    unfolding e using rng gv lp by auto
qed

lemma binary_of_88:
  assumes "set smp \<subseteq> {0..<88}"
  shows "\<exists>b. binary_of 88 smp = Inr b \<and> length b = 88"
  using assms by (auto simp: binary_of_def)

lemma py_in_88:
  assumes "length b = 88" and "us \<noteq> []" and "\<forall>u \<in> set us. length u = 88"
  shows "py_in b us = Inl ValueError"
proof -
  obtain u us' where us: "us = u # us'" using assms(2) by (cases us) auto
  have "length (map2 (=) b u) = 88" using assms us by simp
  then have "length (map2 (=) b u) \<noteq> 1" "map2 (=) b u \<noteq> []" by auto
  then have "array_truth (map2 (=) b u) = Inl ValueError"
    unfolding array_truth_def by (simp only: if_False)
  then show ?thesis unfolding us by simp
qed

lemma add_for_states_error:
  "add_for_states np w frame b beam cands = Inl e \<Longrightarrow> e = ValueError"
  unfolding add_for_states_def
proof (induction beam arbitrary: cands)
  case Nil
  then show ?case by simp
next
  case (Cons s beam)
  then show ?case
    by (auto split: sum.splits dest: get_log_prob_error)
qed

lemma for_each_invariant:
  assumes step: "\<And>x s. x \<in> set xs \<Longrightarrow> I s \<Longrightarrow>
                   f x s = Inl ValueError \<or> (\<exists>s'. f x s = Inr s' \<and> I s' \<and> Q s')"
    and init: "I s"
  shows "for_each f xs s = Inl ValueError \<or>
         (\<exists>s'. for_each f xs s = Inr s' \<and> I s' \<and> (xs \<noteq> [] \<longrightarrow> Q s'))"
  using assms
proof (induction xs arbitrary: s)
  case Nil
  then show ?case by simp
next
  case (Cons x xs)
  from Cons.prems(1) [of x s] Cons.prems(2)
  consider "f x s = Inl ValueError" | s' where "f x s = Inr s'" "I s'" "Q s'" by auto
  then show ?case
  proof cases
    case 1
    then show ?thesis by simp
  next
    case 2
    have "for_each f xs s' = Inl ValueError \<or>
          (\<exists>s''. for_each f xs s' = Inr s'' \<and> I s'' \<and> (xs \<noteq> [] \<longrightarrow> Q s''))"
      using Cons.IH [of s'] Cons.prems(1) 2(2) by auto
    then show ?thesis
    proof
      assume "for_each f xs s' = Inl ValueError"
      then show ?thesis using 2 by simp
    next
      assume "\<exists>s''. for_each f xs s' = Inr s'' \<and> I s'' \<and> (xs \<noteq> [] \<longrightarrow> Q s'')"
      then obtain s'' where s'': "for_each f xs s' = Inr s''" "I s''" "xs \<noteq> [] \<longrightarrow> Q s''" by blast
      have "Q s''"
      proof (cases "xs = []")
        case True
        then show ?thesis using s''(1) 2(3) by simp
      next
        case False
        then show ?thesis using s''(3) by simp
      qed
      then show ?thesis using 2 s'' by simp
    qed
  qed
qed

lemma islice_88:
  assumes srt: "sorts np" and len: "length frame = 88" and n: "1 \<le> n"
  shows "islice (enumerate_samples np frame pr w) n = ([], Some ValueError) \<or>
         (\<exists>y ys. islice (enumerate_samples np frame pr w) n = (y # ys, None) \<and>
                 (\<forall>z \<in> set (y # ys). set (snd z) \<subseteq> {0..<88}))"
proof -
  from enumerate_88 [OF srt len, of pr w]
  show ?thesis
  proof
    assume "enumerate_samples np frame pr w = ([], Some ValueError)"
    then show ?thesis using n by (simp add: islice_def)
  next
    assume "\<exists>y ys. enumerate_samples np frame pr w = (y # ys, None) \<and>
                 (\<forall>z \<in> set (y # ys). set (snd z) \<subseteq> {0..<88})"
    then obtain y ys where e: "enumerate_samples np frame pr w = (y # ys, None)"
      and r: "\<forall>z \<in> set (y # ys). set (snd z) \<subseteq> {0..<88}" by blast
    obtain m where m: "n = Suc m" using n by (cases n) auto
    have "islice (enumerate_samples np frame pr w) n = (y # take m ys, None)"
      unfolding e islice_def m by simp
    moreover have "\<forall>z \<in> set (y # take m ys). set (snd z) \<subseteq> {0..<88}"
      using r by (auto dest: in_set_takeD)
    ultimately show ?thesis by blast
  qed
qed

lemma shared_pool_union:
  assumes srt: "sorts np" and len: "length frame = 88" and n: "1 \<le> n" and ne: "beam \<noteq> []"
  shows "shared_pool np ''union'' w n frame beam = Inl ValueError \<or>
         (\<exists>cands us. shared_pool np ''union'' w n frame beam = Inr (cands, us) \<and>
                      us \<noteq> [] \<and> (\<forall>u \<in> set us. length u = 88))"
proof -
  let ?f = "\<lambda>(lp, sample) (cands, unique_samples).
            case binary_of 88 sample of
              Inl e \<Rightarrow> Inl e
            | Inr binary_sample \<Rightarrow>
                (case add_for_states np w frame binary_sample beam cands of
                   Inl e \<Rightarrow> Inl e
                 | Inr cands' \<Rightarrow>
                     Inr (cands',
                          if ''union'' = ''union'' then unique_samples @ [binary_sample]
                          else unique_samples))"
  let ?I = "\<lambda>s :: 'a cands \<times> real list list. \<forall>u \<in> set (snd s). length u = 88"
  let ?Q = "\<lambda>s :: 'a cands \<times> real list list. snd s \<noteq> []"
  have step: "?f x s = Inl ValueError \<or> (\<exists>s'. ?f x s = Inr s' \<and> ?I s' \<and> ?Q s')"
    if x: "set (snd x) \<subseteq> {0..<88}" and I: "?I s" for x s
  proof -
    obtain lp smp where xx: "x = (lp, smp)" by (cases x)
    obtain cands us where ss: "s = (cands, us)" by (cases s)
    obtain b where b: "binary_of 88 smp = Inr b" "length b = 88"
      using binary_of_88 x xx by auto
    show ?thesis
    proof (cases "add_for_states np w frame b beam cands")
      case (Inl e)
      then have "e = ValueError" by (rule add_for_states_error)
      then show ?thesis using Inl by (simp add: xx ss b)
    next
      case (Inr cands')
      then show ?thesis using I b by (simp add: xx ss)
    qed
  qed
  from islice_88 [OF srt len n, of "prior (beam ! 0)" "(1, 0)"]
  show ?thesis
  proof
    assume "islice (enumerate_samples np frame (prior (beam ! 0)) (1, 0)) n = ([], Some ValueError)"
    then show ?thesis using ne by (simp add: shared_pool_def for_gen_def)
  next
    assume "\<exists>y ys. islice (enumerate_samples np frame (prior (beam ! 0)) (1, 0)) n = (y # ys, None) \<and>
                 (\<forall>z \<in> set (y # ys). set (snd z) \<subseteq> {0..<88})"
    then obtain y ys where i: "islice (enumerate_samples np frame (prior (beam ! 0)) (1, 0)) n = (y # ys, None)"
      and r: "\<forall>z \<in> set (y # ys). set (snd z) \<subseteq> {0..<88}" by blast
    have "for_each ?f (y # ys) ([], []) = Inl ValueError \<or>
          (\<exists>s'. for_each ?f (y # ys) ([], []) = Inr s' \<and> ?I s' \<and> (y # ys \<noteq> [] \<longrightarrow> ?Q s'))"
    proof (rule for_each_invariant [where I = ?I and Q = ?Q])
      fix x s assume xin: "x \<in> set (y # ys)" and Is: "?I s"
      have xr: "set (snd x) \<subseteq> {0..<88}" using r xin by blast
      show "?f x s = Inl ValueError \<or> (\<exists>s'. ?f x s = Inr s' \<and> ?I s' \<and> ?Q s')"
        by (rule step [OF xr Is])
    next
      show "?I ([], [])" by simp
    qed
    then show ?thesis
    proof
      assume "for_each ?f (y # ys) ([], []) = Inl ValueError"
      then show ?thesis using ne unfolding shared_pool_def for_gen_def i by simp
    next
      assume "\<exists>s'. for_each ?f (y # ys) ([], []) = Inr s' \<and> ?I s' \<and> (y # ys \<noteq> [] \<longrightarrow> ?Q s')"
      then obtain cands us where s': "for_each ?f (y # ys) ([], []) = Inr (cands, us)"
        "\<forall>u \<in> set us. length u = 88" "us \<noteq> []" by force
      then show ?thesis using ne unfolding shared_pool_def for_gen_def i by simp
    qed
  qed
qed

lemma private_pool_union:
  assumes srt: "sorts np" and len: "length frame = 88" and n: "1 \<le> n"
    and us: "us \<noteq> []" "\<forall>u \<in> set us. length u = 88"
  shows "private_pool np ''union'' w n frame us state cands = Inl ValueError"
proof -
  from islice_88 [OF srt len n, of "prior state" "(0, 1)"]
  show ?thesis
  proof
    assume "islice (enumerate_samples np frame (prior state) (0, 1)) n = ([], Some ValueError)"
    then show ?thesis by (simp add: private_pool_def for_gen_def)
  next
    assume "\<exists>y ys. islice (enumerate_samples np frame (prior state) (0, 1)) n = (y # ys, None) \<and>
                 (\<forall>z \<in> set (y # ys). set (snd z) \<subseteq> {0..<88})"
    then obtain y ys where i: "islice (enumerate_samples np frame (prior state) (0, 1)) n = (y # ys, None)"
      and r: "set (snd y) \<subseteq> {0..<88}" by auto
    obtain lp smp where y: "y = (lp, smp)" by (cases y)
    obtain b where b: "binary_of 88 smp = Inr b" "length b = 88"
      using binary_of_88 r y by auto
    have "py_in b us = Inl ValueError" by (rule py_in_88 [OF b(2) us])
    then show ?thesis by (simp add: private_pool_def for_gen_def i y b)
  qed
qed

lemma gather_union:
  assumes srt: "sorts np" and len: "length frame = 88" and n: "1 \<le> n" and ne: "beam \<noteq> []"
  shows "gather np ''union'' w n frame beam = Inl ValueError"
proof -
  obtain s rest where beam: "beam = s # rest" using ne by (cases beam) auto
  from shared_pool_union [OF srt len n ne, of w]
  show ?thesis
  proof
    assume "shared_pool np ''union'' w n frame beam = Inl ValueError"
    then show ?thesis by (simp add: gather_def)
  next
    assume "\<exists>cands us. shared_pool np ''union'' w n frame beam = Inr (cands, us) \<and>
                      us \<noteq> [] \<and> (\<forall>u \<in> set us. length u = 88)"
    then obtain cands us where sp: "shared_pool np ''union'' w n frame beam = Inr (cands, us)"
      and us: "us \<noteq> []" "\<forall>u \<in> set us. length u = 88" by blast
    have "private_pool np ''union'' w n frame us s cands = Inl ValueError"
      by (rule private_pool_union [OF srt len n us])
    then show ?thesis using sp unfolding beam by (simp add: gather_def)
  qed
qed

text \<open>
  C6. Claim: under union sampling a candidate from a state's private pool that equals a
  sample of the shared pool is dropped, and this de-duplication completes without
  raising for all binary sample vectors.

  The code breaks this. \<open>binary_sample in unique_samples\<close> (line 96) compares two numpy
  arrays of 88 elements and asks for the truth value of the elementwise result, which
  raises \<open>ValueError\<close>. The shared pool always holds at least one sample, so in union
  mode with a branch factor of 2 or more \<open>decode\<close> fails at the first private candidate
  of the first frame, whatever the frame, the language model and the weight are.
\<close>

theorem union_dedup_raises:
  assumes "sorts np" and "2 \<le> branch_factor" and "length frame = 88"
  shows "decode np lm h0 p0 (frame # frames) branch_factor beam_size ''union'' weight = Inl ValueError"
proof -
  have n: "1 \<le> branch_factor div 2" using assms(2) by simp
  have "gather np ''union'' weight (branch_factor div 2) frame [initial_state h0 p0] = Inl ValueError"
    by (rule gather_union [OF assms(1) assms(3) n]) simp
  then show ?thesis
    by (simp add: decode_def decode_frames_def decode_frame_def)
qed

theorem union_dedup_raises_witness:
  "sorts exact_np \<and> (2 :: nat) \<le> 2 \<and> length (replicate 88 (1/2 :: real)) = 88 \<and>
   decode exact_np (\<lambda>hs bs. Inr (map (\<lambda>h. (h, replicate 88 (1/2))) hs)) () (replicate 88 (1/2))
     [replicate 88 (1/2)] 2 4 ''union'' (1/2, 1/2) = Inl ValueError"
proof -
  have b: "(2 :: nat) \<le> 2" by simp
  have l: "length (replicate 88 (1/2 :: real)) = 88" by simp
  from union_dedup_raises [OF sorts_exact b l, where lm = "\<lambda>hs bs. Inr (map (\<lambda>h. (h, replicate 88 (1/2))) hs)"
      and ?h0.0 = "()" and ?p0.0 = "replicate 88 (1/2)" and frames = "[]" and beam_size = 4
      and weight = "(1/2, 1/2)"]
    sorts_exact b l
  show ?thesis by simp
qed



section \<open>\<open>get_weight_data\<close>\<close>










section \<open>C8: transitions on the ground truth\<close>



section \<open>C7: the hash lookback\<close>




end
